theory Spec2Isabelle
  imports Main "HOL-Library.Word" "HOL-Library.AList" "HOL-Library.Sublist"
begin

section \<open>Handler storage of the TTN handler: data model\<close>

text \<open>
  The development follows \<^verbatim>\<open>core/components/handler_storage.go\<close>.
  The Go arrays \<^verbatim>\<open>lorawan.EUI64\<close> (8 bytes), \<^verbatim>\<open>lorawan.AES128Key\<close> (16 bytes),
  \<^verbatim>\<open>lorawan.DevAddr\<close> (4 bytes) and \<^verbatim>\<open>partitionId\<close> (12 bytes) are byte lists; the
  sizes that the Go types fix are the predicate \<open>sized\<close> below.
\<close>

type_synonym byte = "8 word"
type_synonym bytes = "byte list"

text \<open>The error kinds of \<^verbatim>\<open>core/errors\<close> that the file uses, and one kind for a failure
  of the storage engine.\<close>

datatype error = ErrInvalidStructure | ErrNotFound | ErrStorageFailure

record handlerEntry =
  AppEUI :: bytes
  AppSKey :: bytes
  DevAddr :: bytes
  NwkSKey :: bytes

text \<open>\<^verbatim>\<open>handlerPartition\<close> embeds a \<^verbatim>\<open>handlerEntry\<close>; the embedded value is the field
  \<open>entry\<close>. The field \<^verbatim>\<open>Id\<close> is \<open>Id_part\<close>.\<close>

record 'p handlerPartition =
  entry :: handlerEntry
  Id_part :: bytes
  Packets :: "'p list"

definition sized :: "handlerEntry \<Rightarrow> bool" where
  "sized e = (length (AppEUI e) = 8 \<and> length (AppSKey e) = 16
              \<and> length (DevAddr e) = 4 \<and> length (NwkSKey e) = 16)"

text \<open>The zero value \<^verbatim>\<open>handlerEntry{}\<close>.\<close>

definition zeroEntry :: handlerEntry where
  "zeroEntry = \<lparr>AppEUI = replicate 8 0, AppSKey = replicate 16 0,
                DevAddr = replicate 4 0, NwkSKey = replicate 16 0\<rparr>"

text \<open>Go's builtin \<^verbatim>\<open>copy(dst, src)\<close>: the first \<open>min (len dst) (len src)\<close> elements of
  \<open>dst\<close> are overwritten, the rest of \<open>dst\<close> stays.\<close>

definition copy :: "'a list \<Rightarrow> 'a list \<Rightarrow> 'a list" where
  "copy dst src = take (length dst) src @ drop (length src) dst"

section \<open>The entry reader and writer\<close>

text \<open>
  Modelled from the spec: the type \<^verbatim>\<open>entryReadWriter\<close>, its constructor
  \<^verbatim>\<open>newEntryReadWriter\<close> and its methods \<^verbatim>\<open>Write\<close>, \<^verbatim>\<open>Read\<close>, \<^verbatim>\<open>Bytes\<close> and
  \<^verbatim>\<open>Err\<close> are used by \<^verbatim>\<open>handler_storage.go\<close> and defined in a file that is missing.
  The specification says that every field is written with an explicit length prefix or a
  fixed width, that decoding fails per field on truncation, and that it fails with
  \<open>InvalidStructure\<close> when a field cannot be fully read. \<^verbatim>\<open>Read\<close> hands the bytes of one
  field to a callback and is not told a width, so the model uses a length prefix; the
  prefix is taken to be two bytes, big-endian. The reader and writer is a buffer with a
  sticky error.
\<close>

record entryReadWriter =
  err :: "error option"
  data :: bytes

text \<open>Modelled from the spec: the constructor, missing from the sources; it wraps the
  given bytes and has no error.\<close>

definition newEntryReadWriter :: "bytes \<Rightarrow> entryReadWriter" where
  "newEntryReadWriter buf = \<lparr>err = None, data = buf\<rparr>"

text \<open>Modelled from the spec: the explicit length prefix of a field, missing from the
  sources; two bytes, most significant first.\<close>

definition put_len :: "nat \<Rightarrow> bytes" where
  "put_len n = [of_nat (n div 256), of_nat (n mod 256)]"

definition get_len :: "bytes \<Rightarrow> nat" where
  "get_len bs = unat (bs ! 0) * 256 + unat (bs ! 1)"

text \<open>Modelled from the spec: \<^verbatim>\<open>Write\<close>, missing from the sources; it appends the
  length prefix and the bytes of the field.\<close>

definition Write :: "entryReadWriter \<Rightarrow> bytes \<Rightarrow> entryReadWriter" where
  "Write w raw = w\<lparr>data := data w @ put_len (length raw) @ raw\<rparr>"

text \<open>Modelled from the spec: \<^verbatim>\<open>Read\<close>, missing from the sources. After an error it
  does nothing; it fails when the prefix or the announced bytes cannot be fully read;
  otherwise it hands the bytes of the field to the callback \<open>to\<close>, which updates the
  state \<open>s\<close> of the caller (the entry being decoded).\<close>

definition Read :: "(bytes \<Rightarrow> 's \<Rightarrow> 's) \<Rightarrow> entryReadWriter \<times> 's \<Rightarrow> entryReadWriter \<times> 's" where
  "Read to ws =
     (let w = fst ws; s = snd ws in
      if err w \<noteq> None then (w, s)
      else if length (data w) < 2 then (w\<lparr>err := Some ErrInvalidStructure\<rparr>, s)
      else
        (let n = get_len (take 2 (data w)); rest = drop 2 (data w) in
         if length rest < n then (w\<lparr>err := Some ErrInvalidStructure\<rparr>, s)
         else (w\<lparr>data := drop n rest\<rparr>, to (take n rest) s)))"

text \<open>Modelled from the spec: \<^verbatim>\<open>Bytes\<close> and \<^verbatim>\<open>Err\<close>, missing from the sources; the
  bytes written so far, and the decoding error as \<open>ErrInvalidStructure\<close>.\<close>

definition Bytes :: "entryReadWriter \<Rightarrow> error + bytes" where
  "Bytes w = (case err w of Some e \<Rightarrow> Inl e | None \<Rightarrow> Inr (data w))"

definition Err :: "entryReadWriter \<Rightarrow> error option" where
  "Err w = (case err w of Some e \<Rightarrow> Some ErrInvalidStructure | None \<Rightarrow> None)"

text \<open>
  What one \<open>Read\<close> does to the reader alone, whatever the callback, and the statement
  that \<open>n\<close> successive fields can be fully read from a byte sequence. Both are used to
  state and prove when decoding fails.
\<close>

definition skip_field :: "entryReadWriter \<Rightarrow> entryReadWriter" where
  "skip_field w =
     (if err w \<noteq> None then w
      else if length (data w) < 2 then w\<lparr>err := Some ErrInvalidStructure\<rparr>
      else if length (data w) - 2 < get_len (take 2 (data w)) then w\<lparr>err := Some ErrInvalidStructure\<rparr>
      else w\<lparr>data := drop (2 + get_len (take 2 (data w))) (data w)\<rparr>)"

fun fields_readable :: "nat \<Rightarrow> bytes \<Rightarrow> bool" where
  "fields_readable 0 d = True"
| "fields_readable (Suc n) d =
     (2 \<le> length d \<and> get_len (take 2 d) \<le> length d - 2
      \<and> fields_readable n (drop (2 + get_len (take 2 d)) d))"

section \<open>MarshalBinary and UnmarshalBinary\<close>

definition MarshalBinary :: "handlerEntry \<Rightarrow> error + bytes" where
  "MarshalBinary e =
     (let w = newEntryReadWriter [];
          w = Write w (AppEUI e);
          w = Write w (AppSKey e);
          w = Write w (DevAddr e);
          w = Write w (NwkSKey e)
      in Bytes w)"

text \<open>
  \<^verbatim>\<open>UnmarshalBinary\<close> has a pointer receiver that may be nil (\<open>None\<close>). It writes into the
  receiver and returns an error value; the model returns the receiver after the call
  together with the error (\<open>None\<close> for \<^verbatim>\<open>nil\<close>).
\<close>

definition UnmarshalBinary :: "handlerEntry option \<Rightarrow> bytes \<Rightarrow> handlerEntry option \<times> error option" where
  "UnmarshalBinary receiver dat =
     (case receiver of
        None \<Rightarrow> (None, Some ErrInvalidStructure)
      | Some e0 \<Rightarrow>
          if length dat < 4 then (Some e0, Some ErrInvalidStructure)
          else
            (let r = (newEntryReadWriter dat, e0);
                 r = Read (\<lambda>d e. e\<lparr>AppEUI := copy (AppEUI e) d\<rparr>) r;
                 r = Read (\<lambda>d e. e\<lparr>AppSKey := copy (AppSKey e) d\<rparr>) r;
                 r = Read (\<lambda>d e. e\<lparr>DevAddr := copy (DevAddr e) d\<rparr>) r;
                 r = Read (\<lambda>d e. e\<lparr>NwkSKey := copy (NwkSKey e) d\<rparr>) r
             in (Some (snd r), Err (fst r))))"

section \<open>Partition\<close>

text \<open>
  The packet type \<^verbatim>\<open>core.Packet\<close> and the call \<^verbatim>\<open>s.Lookup\<close> reach code outside the
  file, so \<open>Partition\<close> takes them as parameters:
  \<^item> \<open>lk\<close> is \<^verbatim>\<open>s.Lookup\<close>, from a device address to an error or the candidate entries;
  \<^item> \<open>da\<close> is \<^verbatim>\<open>packet.DevAddr()\<close>, an error or the address of the packet;
  \<^item> \<open>vm\<close> is \<^verbatim>\<open>packet.Payload.ValidateMIC(key)\<close>, an error or the boolean outcome.
  The Go map \<^verbatim>\<open>map[partitionId]handlerPartition\<close> is an association list with
  distinct keys, read with \<open>map_of\<close> and written with \<open>AList.update\<close>.
\<close>

type_synonym 'p partitions = "(bytes \<times> 'p handlerPartition) list"

text \<open>Lines 111 to 113: the id is a zeroed 12-byte array; the entry's \<^verbatim>\<open>AppEUI\<close> is
  copied into its first 8 bytes and the entry's \<^verbatim>\<open>DevAddr\<close> into the last 4.\<close>

definition partitionId :: "handlerEntry \<Rightarrow> bytes" where
  "partitionId e = copy (take 8 (replicate 12 0)) (AppEUI e)
                   @ copy (drop 8 (replicate 12 0)) (DevAddr e)"

text \<open>\<^verbatim>\<open>partitions[id].Packets\<close>: the zero value (no packets) for an absent key.\<close>

definition packets_at :: "'p partitions \<Rightarrow> bytes \<Rightarrow> 'p list" where
  "packets_at parts i = (case map_of parts i of None \<Rightarrow> [] | Some q \<Rightarrow> Packets q)"

text \<open>The inner loop (lines 103 to 120) over the candidate entries of one packet.\<close>

fun match_entries ::
  "('p \<Rightarrow> bytes \<Rightarrow> 'y + bool) \<Rightarrow> 'p partitions \<Rightarrow> 'p \<Rightarrow> handlerEntry list \<Rightarrow> 'p partitions" where
  "match_entries vm parts packet [] = parts"
| "match_entries vm parts packet (e # entries) =
     (case vm packet (NwkSKey e) of
        Inl failure \<Rightarrow> match_entries vm parts packet entries
      | Inr ok \<Rightarrow>
          if \<not> ok then match_entries vm parts packet entries
          else
            (let i = partitionId e in
             AList.update i
               \<lparr>entry = e, Id_part = i, Packets = packets_at parts i @ [packet]\<rparr> parts))"

text \<open>The outer loop (lines 90 to 121) over the packets of the batch.\<close>

fun partition_loop ::
  "(bytes \<Rightarrow> error + handlerEntry list) \<Rightarrow> ('p \<Rightarrow> 'x + bytes) \<Rightarrow> ('p \<Rightarrow> bytes \<Rightarrow> 'y + bool)
   \<Rightarrow> 'p partitions \<Rightarrow> 'p list \<Rightarrow> error + 'p partitions" where
  "partition_loop lk da vm parts [] = Inr parts"
| "partition_loop lk da vm parts (packet # packets) =
     (case da packet of
        Inl failure \<Rightarrow> Inl ErrInvalidStructure
      | Inr devAddr \<Rightarrow>
          (case lk devAddr of
             Inl failure \<Rightarrow> Inl failure
           | Inr entries \<Rightarrow>
               partition_loop lk da vm (match_entries vm parts packet entries) packets))"

text \<open>
  \<open>Partition\<close> (lines 86 to 134). Go ranges over the map in an order that the language
  leaves open; the model lists the partitions in the order in which their ids first
  appeared, and the theorems below speak about \<open>set res\<close> only.
\<close>

definition Partition ::
  "(bytes \<Rightarrow> error + handlerEntry list) \<Rightarrow> ('p \<Rightarrow> 'x + bytes) \<Rightarrow> ('p \<Rightarrow> bytes \<Rightarrow> 'y + bool)
   \<Rightarrow> 'p list \<Rightarrow> error + 'p handlerPartition list" where
  "Partition lk da vm packets =
     (case partition_loop lk da vm [] packets of
        Inl failure \<Rightarrow> Inl failure
      | Inr partitions \<Rightarrow>
          (let res = map snd partitions in
           if length res = 0 then Inl ErrNotFound else Inr res))"

text \<open>
  The entry that the first-match policy of the specification selects for a packet: the
  first candidate, in lookup order, whose integrity check returns true. It is used to
  state what the loops above compute.
\<close>

definition first_valid :: "('p \<Rightarrow> bytes \<Rightarrow> 'y + bool) \<Rightarrow> 'p \<Rightarrow> handlerEntry list \<Rightarrow> handlerEntry option" where
  "first_valid vm packet entries = List.find (\<lambda>e. vm packet (NwkSKey e) = Inr True) entries"

definition matched_entry ::
  "(bytes \<Rightarrow> error + handlerEntry list) \<Rightarrow> ('p \<Rightarrow> 'x + bytes) \<Rightarrow> ('p \<Rightarrow> bytes \<Rightarrow> 'y + bool)
   \<Rightarrow> 'p \<Rightarrow> handlerEntry option" where
  "matched_entry lk da vm packet =
     (case da packet of
        Inl failure \<Rightarrow> None
      | Inr devAddr \<Rightarrow> (case lk devAddr of Inl failure \<Rightarrow> None | Inr entries \<Rightarrow> first_valid vm packet entries))"

definition matched_id ::
  "(bytes \<Rightarrow> error + handlerEntry list) \<Rightarrow> ('p \<Rightarrow> 'x + bytes) \<Rightarrow> ('p \<Rightarrow> bytes \<Rightarrow> 'y + bool)
   \<Rightarrow> 'p \<Rightarrow> bytes option" where
  "matched_id lk da vm packet = map_option partitionId (matched_entry lk da vm packet)"

text \<open>An integrity check that answers false wherever \<open>vm\<close> returns an error; it is the
  comparison point for the treatment of errors in the inner loop.\<close>

definition errors_as_false :: "('p \<Rightarrow> bytes \<Rightarrow> 'y + bool) \<Rightarrow> 'p \<Rightarrow> bytes \<Rightarrow> unit + bool" where
  "errors_as_false vm packet key = (case vm packet key of Inl failure \<Rightarrow> Inr False | Inr ok \<Rightarrow> Inr ok)"

section \<open>The registry\<close>

text \<open>
  Modelled from the spec: the helpers \<^verbatim>\<open>lookup\<close>, \<^verbatim>\<open>store\<close> and \<^verbatim>\<open>resetDB\<close> are
  defined in a file that is missing, and the bolt database is a library. The specification describes a
  store keyed by the short address that keeps, for every key, the encoded entries in
  insertion order: \<open>Store\<close> appends without removing or overwriting, \<open>Lookup\<close> returns
  every entry under the address (the empty list, not an error, when there is none) and
  surfaces an entry that fails to decode as \<open>InvalidStructure\<close>, \<open>Reset\<close> deletes all
  entries, and after \<open>Close\<close> no operation is valid (here: it fails with
  \<open>ErrStorageFailure\<close>).
\<close>

record boltDB =
  opened :: bool
  applications :: "bytes \<Rightarrow> bytes list"

definition emptyDB :: boltDB where
  "emptyDB = \<lparr>opened = True, applications = (\<lambda>k. [])\<rparr>"

text \<open>Modelled from the spec: decoding of the stored blobs of one key, each into a fresh
  entry; a blob that fails to decode is surfaced as \<open>ErrInvalidStructure\<close>.\<close>

fun decode_entries :: "bytes list \<Rightarrow> error + handlerEntry list" where
  "decode_entries [] = Inr []"
| "decode_entries (blob # blobs) =
     (case UnmarshalBinary (Some zeroEntry) blob of
        (Some e, None) \<Rightarrow>
          (case decode_entries blobs of Inl failure \<Rightarrow> Inl failure | Inr es \<Rightarrow> Inr (e # es))
      | (_, _) \<Rightarrow> Inl ErrInvalidStructure)"

text \<open>Modelled from the spec: \<^verbatim>\<open>lookup\<close>, missing from the sources; every entry under
  the address in insertion order, the empty list when there is none.\<close>

definition lookup :: "boltDB \<Rightarrow> bytes \<Rightarrow> error + handlerEntry list" where
  "lookup db devAddr =
     (if \<not> opened db then Inl ErrStorageFailure else decode_entries (applications db devAddr))"

text \<open>Modelled from the spec: \<^verbatim>\<open>store\<close>, missing from the sources; the encoded entry
  is appended under the address, nothing is removed or overwritten.\<close>

definition store :: "boltDB \<Rightarrow> bytes \<Rightarrow> handlerEntry \<Rightarrow> error + boltDB" where
  "store db devAddr e =
     (if \<not> opened db then Inl ErrStorageFailure
      else
        (case MarshalBinary e of
           Inl failure \<Rightarrow> Inl failure
         | Inr blob \<Rightarrow>
             Inr (db\<lparr>applications := (applications db)(devAddr := applications db devAddr @ [blob])\<rparr>)))"

text \<open>Modelled from the spec: \<^verbatim>\<open>resetDB\<close>, missing from the sources; all stored
  entries are deleted.\<close>

definition resetDB :: "boltDB \<Rightarrow> error + boltDB" where
  "resetDB db =
     (if \<not> opened db then Inl ErrStorageFailure else Inr (db\<lparr>applications := (\<lambda>k. [])\<rparr>))"

text \<open>The methods of \<^verbatim>\<open>handlerBoltStorage\<close> (lines 72 to 83 and 137 to 144) pass the
  embedded database to the helpers.\<close>

definition Lookup :: "boltDB \<Rightarrow> bytes \<Rightarrow> error + handlerEntry list" where
  "Lookup s devAddr = (case lookup s devAddr of Inl failure \<Rightarrow> Inl failure | Inr entries \<Rightarrow> Inr entries)"

definition Store :: "boltDB \<Rightarrow> bytes \<Rightarrow> handlerEntry \<Rightarrow> error + boltDB" where
  "Store s devAddr e = store s devAddr e"

definition Reset :: "boltDB \<Rightarrow> error + boltDB" where
  "Reset s = resetDB s"

text \<open>Modelled from the spec: \<^verbatim>\<open>DB.Close\<close> of the bolt library; it releases the
  handle, and no operation is valid afterwards.\<close>

definition Close :: "boltDB \<Rightarrow> error + boltDB" where
  "Close s = (if \<not> opened s then Inl ErrStorageFailure else Inr (s\<lparr>opened := False\<rparr>))"

text \<open>The registry states that the four operations produce from the empty registry;
  the entries handed to \<open>Store\<close> have the sizes of the Go arrays.\<close>

inductive reachable :: "boltDB \<Rightarrow> bool" where
  reachable_empty: "reachable emptyDB"
| reachable_Store: "reachable s \<Longrightarrow> sized e \<Longrightarrow> Store s devAddr e = Inr s' \<Longrightarrow> reachable s'"
| reachable_Reset: "reachable s \<Longrightarrow> Reset s = Inr s' \<Longrightarrow> reachable s'"
| reachable_Close: "reachable s \<Longrightarrow> Close s = Inr s' \<Longrightarrow> reachable s'"

section \<open>Concrete data\<close>

text \<open>
  Two applications \<open>X\<close> and \<open>Y\<close>, one short address \<open>A\<close>, two network session keys, and
  packets that are natural numbers: packet 1 validates under \<open>K1\<close> only, packet 2 under
  \<open>K2\<close> only, packet 3 under no key; the integrity check of packet 4 fails with an error
  under \<open>K1\<close> and succeeds under \<open>K2\<close>; packet 5 has no readable address,
  packet 6 has the address \<open>B\<close>, and packet 7 validates under every key.
\<close>

definition ex_X :: bytes where "ex_X = [1, 1, 1, 1, 1, 1, 1, 1]"
definition ex_Y :: bytes where "ex_Y = [2, 2, 2, 2, 2, 2, 2, 2]"
definition ex_A :: bytes where "ex_A = [10, 11, 12, 13]"
definition ex_B :: bytes where "ex_B = [20, 21, 22, 23]"
definition ex_K1 :: bytes where "ex_K1 = replicate 16 1"
definition ex_K2 :: bytes where "ex_K2 = replicate 16 2"
definition ex_S :: bytes where "ex_S = replicate 16 7"

definition ex_e1 :: handlerEntry where
  "ex_e1 = \<lparr>AppEUI = ex_X, AppSKey = ex_S, DevAddr = ex_A, NwkSKey = ex_K1\<rparr>"

definition ex_e2 :: handlerEntry where
  "ex_e2 = \<lparr>AppEUI = ex_Y, AppSKey = ex_S, DevAddr = ex_A, NwkSKey = ex_K2\<rparr>"

text \<open>A second device of application \<open>X\<close> with the address \<open>A\<close> and the key \<open>K2\<close>.\<close>

definition ex_e2X :: handlerEntry where
  "ex_e2X = \<lparr>AppEUI = ex_X, AppSKey = ex_S, DevAddr = ex_A, NwkSKey = ex_K2\<rparr>"

definition ex_da :: "nat \<Rightarrow> unit + bytes" where
  "ex_da p = (if p = 5 then Inl () else if p = 6 then Inr ex_B else Inr ex_A)"

definition ex_vm :: "nat \<Rightarrow> bytes \<Rightarrow> unit + bool" where
  "ex_vm p k = (if p = 4 \<and> k = ex_K1 then Inl ()
                else Inr ((p = 1 \<and> k = ex_K1) \<or> (p = 2 \<and> k = ex_K2) \<or> (p = 4 \<and> k = ex_K2)
                          \<or> p = 7))"

definition ex_lk :: "bytes \<Rightarrow> error + handlerEntry list" where
  "ex_lk a = (if a = ex_A then Inr [ex_e1, ex_e2] else Inr [])"

text \<open>A registry in which both devices under \<open>A\<close> belong to application \<open>X\<close>.\<close>

definition ex_lk_sameapp :: "bytes \<Rightarrow> error + handlerEntry list" where
  "ex_lk_sameapp a = (if a = ex_A then Inr [ex_e1, ex_e2X] else Inr [])"

text \<open>A registry whose engine fails on the address \<open>B\<close>.\<close>

definition ex_lk_failing :: "bytes \<Rightarrow> error + handlerEntry list" where
  "ex_lk_failing a = (if a = ex_B then Inl ErrStorageFailure else ex_lk a)"

section \<open>Lemmas on the codec\<close>

lemma copy_same_length: "length src = length dst \<Longrightarrow> copy dst src = src"
  by (simp add: copy_def)

lemma get_put_len: "n < 65536 \<Longrightarrow> get_len (put_len n) = n"
proof -
  assume n: "n < 65536"
  then have "n div 256 < 256" by simp
  then have "unat (of_nat (n div 256) :: byte) = n div 256"
    by (simp add: unat_of_nat)
  moreover have "unat (of_nat (n mod 256) :: byte) = n mod 256"
    by (simp add: unat_of_nat)
  ultimately show ?thesis
    by (simp add: get_len_def put_len_def)
qed

lemma Read_field:
  "length raw < 65536 \<Longrightarrow>
   Read to (\<lparr>err = None, data = put_len (length raw) @ raw @ rest\<rparr>, s)
     = (\<lparr>err = None, data = rest\<rparr>, to raw s)"
proof -
  assume len: "length raw < 65536"
  have two: "length (put_len (length raw)) = 2"
    by (simp add: put_len_def)
  have tk: "take 2 (put_len (length raw) @ raw @ rest) = put_len (length raw)"
    using two by simp
  have dr: "drop 2 (put_len (length raw) @ raw @ rest) = raw @ rest"
    using two by simp
  show ?thesis
    unfolding Read_def
    by (simp add: Let_def tk dr two get_put_len [OF len])
qed

lemma MarshalBinary_bytes:
  "MarshalBinary e = Inr (put_len (length (AppEUI e)) @ AppEUI e
                        @ put_len (length (AppSKey e)) @ AppSKey e
                        @ put_len (length (DevAddr e)) @ DevAddr e
                        @ put_len (length (NwkSKey e)) @ NwkSKey e)"
  by (simp add: MarshalBinary_def Write_def Bytes_def newEntryReadWriter_def Let_def)

lemma UnmarshalBinary_MarshalBinary:
  assumes "sized e" and "sized e0" and "MarshalBinary e = Inr bs"
  shows "UnmarshalBinary (Some e0) bs = (Some e, None)"
proof -
  let ?bs = "put_len (length (AppEUI e)) @ AppEUI e
             @ put_len (length (AppSKey e)) @ AppSKey e
             @ put_len (length (DevAddr e)) @ DevAddr e
             @ put_len (length (NwkSKey e)) @ NwkSKey e"
  have l: "length (AppEUI e) = 8" "length (AppSKey e) = 16"
          "length (DevAddr e) = 4" "length (NwkSKey e) = 16"
    using assms(1) by (simp_all add: sized_def)
  have l0: "length (AppEUI e0) = 8" "length (AppSKey e0) = 16"
           "length (DevAddr e0) = 4" "length (NwkSKey e0) = 16"
    using assms(2) by (simp_all add: sized_def)
  have long: "\<not> length ?bs < 4"
    by (simp add: l put_len_def)
  have r1: "Read (\<lambda>d x. x\<lparr>AppEUI := copy (AppEUI x) d\<rparr>) (\<lparr>err = None, data = ?bs\<rparr>, e0)
            = (\<lparr>err = None, data = put_len (length (AppSKey e)) @ AppSKey e
                 @ put_len (length (DevAddr e)) @ DevAddr e
                 @ put_len (length (NwkSKey e)) @ NwkSKey e\<rparr>,
               e0\<lparr>AppEUI := AppEUI e\<rparr>)"
    using Read_field [of "AppEUI e" "\<lambda>d x. x\<lparr>AppEUI := copy (AppEUI x) d\<rparr>" _ e0]
    by (simp add: l l0 copy_same_length)
  have r2: "Read (\<lambda>d x. x\<lparr>AppSKey := copy (AppSKey x) d\<rparr>)
              (\<lparr>err = None, data = put_len (length (AppSKey e)) @ AppSKey e
                 @ put_len (length (DevAddr e)) @ DevAddr e
                 @ put_len (length (NwkSKey e)) @ NwkSKey e\<rparr>,
               e0\<lparr>AppEUI := AppEUI e\<rparr>)
            = (\<lparr>err = None, data = put_len (length (DevAddr e)) @ DevAddr e
                 @ put_len (length (NwkSKey e)) @ NwkSKey e\<rparr>,
               e0\<lparr>AppEUI := AppEUI e, AppSKey := AppSKey e\<rparr>)"
    using Read_field [of "AppSKey e" "\<lambda>d x. x\<lparr>AppSKey := copy (AppSKey x) d\<rparr>" _
                         "e0\<lparr>AppEUI := AppEUI e\<rparr>"]
    by (simp add: l l0 copy_same_length)
  have r3: "Read (\<lambda>d x. x\<lparr>DevAddr := copy (DevAddr x) d\<rparr>)
              (\<lparr>err = None, data = put_len (length (DevAddr e)) @ DevAddr e
                 @ put_len (length (NwkSKey e)) @ NwkSKey e\<rparr>,
               e0\<lparr>AppEUI := AppEUI e, AppSKey := AppSKey e\<rparr>)
            = (\<lparr>err = None, data = put_len (length (NwkSKey e)) @ NwkSKey e\<rparr>,
               e0\<lparr>AppEUI := AppEUI e, AppSKey := AppSKey e, DevAddr := DevAddr e\<rparr>)"
    using Read_field [of "DevAddr e" "\<lambda>d x. x\<lparr>DevAddr := copy (DevAddr x) d\<rparr>" _
                         "e0\<lparr>AppEUI := AppEUI e, AppSKey := AppSKey e\<rparr>"]
    by (simp add: l l0 copy_same_length)
  have r4: "Read (\<lambda>d x. x\<lparr>NwkSKey := copy (NwkSKey x) d\<rparr>)
              (\<lparr>err = None, data = put_len (length (NwkSKey e)) @ NwkSKey e\<rparr>,
               e0\<lparr>AppEUI := AppEUI e, AppSKey := AppSKey e, DevAddr := DevAddr e\<rparr>)
            = (\<lparr>err = None, data = []\<rparr>,
               e0\<lparr>AppEUI := AppEUI e, AppSKey := AppSKey e, DevAddr := DevAddr e,
                   NwkSKey := NwkSKey e\<rparr>)"
    using Read_field [of "NwkSKey e" "\<lambda>d x. x\<lparr>NwkSKey := copy (NwkSKey x) d\<rparr>" "[]"
                         "e0\<lparr>AppEUI := AppEUI e, AppSKey := AppSKey e, DevAddr := DevAddr e\<rparr>"]
    by (simp add: l l0 copy_same_length)
  have "UnmarshalBinary (Some e0) ?bs = (Some e, None)"
    unfolding UnmarshalBinary_def
    by (simp only: option.case long if_False Let_def newEntryReadWriter_def r1 r2 r3 r4)
       (simp add: Err_def)
  moreover have "bs = ?bs"
    using assms(3) by (simp add: MarshalBinary_bytes)
  ultimately show ?thesis by simp
qed

text \<open>
  C6. Round trip of the codec: for an entry whose four fields have the sizes of the Go
  arrays (8, 16, 4 and 16 bytes), \<open>MarshalBinary\<close> returns bytes without error, and
  \<open>UnmarshalBinary\<close> of these bytes into any receiver of the same type returns no
  error and leaves the receiver equal to the entry.
\<close>

theorem codec_round_trip:
  assumes "sized e" and "sized e0"
  shows "\<exists>bs. MarshalBinary e = Inr bs \<and> UnmarshalBinary (Some e0) bs = (Some e, None)"
proof -
  obtain bs where bs: "MarshalBinary e = Inr bs"
    by (simp add: MarshalBinary_bytes)
  from UnmarshalBinary_MarshalBinary [OF assms bs] bs show ?thesis by blast
qed

theorem codec_round_trip_witness:
  "sized ex_e1 \<and> sized zeroEntry
   \<and> (\<exists>bs. MarshalBinary ex_e1 = Inr bs \<and> UnmarshalBinary (Some zeroEntry) bs = (Some ex_e1, None))"
proof -
  have a: "sized ex_e1"
    by (simp add: sized_def ex_e1_def ex_X_def ex_S_def ex_A_def ex_K1_def)
  have b: "sized zeroEntry"
    by (simp add: sized_def zeroEntry_def)
  show ?thesis
    using a b codec_round_trip [OF a b] by simp
qed

lemma Read_fst: "fst (Read to ws) = skip_field (fst ws)"
  by (simp add: Read_def skip_field_def Let_def add.commute)

lemma skip_field_failed: "err w \<noteq> None \<Longrightarrow> skip_field w = w"
  by (simp add: skip_field_def)

lemma skip_fields_failed: "err w \<noteq> None \<Longrightarrow> (skip_field ^^ n) w = w"
  by (induction n) (simp_all add: skip_field_failed)

lemma Err_skip_fields:
  "err w = None \<Longrightarrow>
   Err ((skip_field ^^ n) w) = (if fields_readable n (data w) then None else Some ErrInvalidStructure)"
proof (induction n arbitrary: w)
  case 0
  then show ?case by (simp add: Err_def)
next
  case (Suc n)
  have step: "(skip_field ^^ Suc n) w = (skip_field ^^ n) (skip_field w)"
    by (simp add: funpow_swap1)
  show ?case
  proof (cases "2 \<le> length (data w) \<and> get_len (take 2 (data w)) \<le> length (data w) - 2")
    case True
    then have sk: "skip_field w = w\<lparr>data := drop (2 + get_len (take 2 (data w))) (data w)\<rparr>"
      using Suc.prems by (auto simp: skip_field_def)
    have "err (skip_field w) = None"
      using Suc.prems by (simp add: sk)
    from Suc.IH [OF this] show ?thesis
      using True by (simp only: step) (simp add: sk)
  next
    case False
    then have sk: "skip_field w = w\<lparr>err := Some ErrInvalidStructure\<rparr>"
      using Suc.prems by (auto simp: skip_field_def)
    have "(skip_field ^^ n) (skip_field w) = skip_field w"
      by (rule skip_fields_failed) (simp add: sk)
    then show ?thesis
      using False by (simp only: step) (auto simp: sk Err_def)
  qed
qed

lemma UnmarshalBinary_error:
  "snd (UnmarshalBinary (Some e0) dat) =
     (if length dat < 4 \<or> \<not> fields_readable 4 dat then Some ErrInvalidStructure else None)"
proof (cases "length dat < 4")
  case True
  then show ?thesis by (simp add: UnmarshalBinary_def)
next
  case False
  have four: "(skip_field ^^ 4) w = skip_field (skip_field (skip_field (skip_field w)))" for w
    by (simp add: eval_nat_numeral)
  have "snd (UnmarshalBinary (Some e0) dat) = Err ((skip_field ^^ 4) (newEntryReadWriter dat))"
    using False by (simp add: UnmarshalBinary_def Let_def Read_fst four)
  also have "\<dots> = (if fields_readable 4 dat then None else Some ErrInvalidStructure)"
    using Err_skip_fields [of "newEntryReadWriter dat" 4] by (simp add: newEntryReadWriter_def)
  finally show ?thesis using False by simp
qed

lemma fields_readable_length: "fields_readable n d \<Longrightarrow> 2 * n \<le> length d"
proof (induction n arbitrary: d)
  case 0
  then show ?case by simp
next
  case (Suc n)
  then have a: "2 \<le> length d" and b: "get_len (take 2 d) \<le> length d - 2"
    and c: "fields_readable n (drop (2 + get_len (take 2 d)) d)"
    by simp_all
  from Suc.IH [OF c] have "2 * n \<le> length d - (2 + get_len (take 2 d))" by simp
  then show ?case using a b by simp
qed

lemma fields_readable_numeral:
  "fields_readable (numeral k) d =
     (2 \<le> length d \<and> get_len (take 2 d) \<le> length d - 2
      \<and> fields_readable (pred_numeral k) (drop (2 + get_len (take 2 d)) d))"
  by (simp add: numeral_eq_Suc)

text \<open>
  C7. Decoding rejects truncated input. \<open>UnmarshalBinary\<close> returns
  \<open>ErrInvalidStructure\<close> for every input of fewer than 4 bytes (the check made before
  any field is read), for every input from which the four fields cannot all be fully
  read, and hence for every input of fewer than 8 bytes, the length of four empty fields.
  The check of the 4-byte minimum comes before any read of a field: on an input of fewer
  than 4 bytes the call returns \<open>ErrInvalidStructure\<close> and leaves the receiver as it
  was, so no field has been read into it, also where the input holds a complete first
  field.
\<close>

theorem decode_rejects_truncated:
  "(length dat < 4 \<longrightarrow> snd (UnmarshalBinary receiver dat) = Some ErrInvalidStructure)
   \<and> (\<not> fields_readable 4 dat \<longrightarrow> snd (UnmarshalBinary receiver dat) = Some ErrInvalidStructure)
   \<and> (length dat < 8 \<longrightarrow> snd (UnmarshalBinary receiver dat) = Some ErrInvalidStructure)
   \<and> (length dat < 4 \<longrightarrow> UnmarshalBinary receiver dat = (receiver, Some ErrInvalidStructure))"
proof (cases receiver)
  case None
  then show ?thesis by (simp add: UnmarshalBinary_def)
next
  case (Some e0)
  have "length dat < 8 \<Longrightarrow> \<not> fields_readable 4 dat"
    using fields_readable_length [of 4 dat] by auto
  moreover have "length dat < 4 \<Longrightarrow>
                   UnmarshalBinary (Some e0) dat = (Some e0, Some ErrInvalidStructure)"
    by (simp add: UnmarshalBinary_def)
  ultimately show ?thesis
    by (auto simp: Some UnmarshalBinary_error)
qed

theorem decode_rejects_truncated_witness:
  "length [0, 0, 0 :: byte] < 4
   \<and> snd (UnmarshalBinary (Some zeroEntry) [0, 0, 0]) = Some ErrInvalidStructure
   \<and> \<not> fields_readable 4 [0, 8, 1, 2, 3]
   \<and> snd (UnmarshalBinary (Some zeroEntry) [0, 8, 1, 2, 3]) = Some ErrInvalidStructure
   \<and> length [0, 0, 0, 0, 0, 0 :: byte] < 8
   \<and> snd (UnmarshalBinary (Some zeroEntry) [0, 0, 0, 0, 0, 0]) = Some ErrInvalidStructure
   \<and> length [0, 1, 5 :: byte] < 4
   \<and> fields_readable 1 [0, 1, 5]
   \<and> UnmarshalBinary (Some zeroEntry) [0, 1, 5] = (Some zeroEntry, Some ErrInvalidStructure)
   \<and> UnmarshalBinary None [0, 1, 5] = (None, Some ErrInvalidStructure)"
proof -
  have a: "length [0, 0, 0 :: byte] < 4" by simp
  have b: "\<not> fields_readable 4 [0, 8, 1, 2, 3]"
    by (simp add: fields_readable_numeral get_len_def)
  have c: "length [0, 0, 0, 0, 0, 0 :: byte] < 8" by simp
  have d: "length [0, 1, 5 :: byte] < 4" by simp
  have e: "fields_readable 1 [0, 1, 5]"
    by (simp add: get_len_def)
  show ?thesis
    using a b c d e
      decode_rejects_truncated [of "[0, 0, 0]" "Some zeroEntry"]
      decode_rejects_truncated [of "[0, 8, 1, 2, 3]" "Some zeroEntry"]
      decode_rejects_truncated [of "[0, 0, 0, 0, 0, 0]" "Some zeroEntry"]
      decode_rejects_truncated [of "[0, 1, 5]" "Some zeroEntry"]
      decode_rejects_truncated [of "[0, 1, 5]" None]
    by blast
qed

section \<open>Lemmas on the registry\<close>

lemma sized_zeroEntry: "sized zeroEntry"
  by (simp add: sized_def zeroEntry_def)

lemma decode_entries_snoc:
  "decode_entries blobs = Inr es \<Longrightarrow> UnmarshalBinary (Some zeroEntry) blob = (Some e, None) \<Longrightarrow>
   decode_entries (blobs @ [blob]) = Inr (es @ [e])"
proof (induction blobs arbitrary: es)
  case Nil
  then show ?case by simp
next
  case (Cons b blobs)
  from Cons.prems(1) obtain x xs where
    b: "UnmarshalBinary (Some zeroEntry) b = (Some x, None)" and
    xs: "decode_entries blobs = Inr xs" and es: "es = x # xs"
    by (auto split: prod.splits option.splits sum.splits)
  from Cons.IH [OF xs Cons.prems(2)] show ?case
    by (simp add: b es)
qed

lemma Store_result:
  "Store s addr e = Inr s' \<Longrightarrow>
   opened s \<and> opened s'
   \<and> (\<exists>blob. MarshalBinary e = Inr blob
        \<and> applications s' = (applications s)(addr := applications s addr @ [blob]))"
  by (auto simp: Store_def store_def split: if_splits sum.splits)

lemma Lookup_decode:
  "Lookup s addr = (if \<not> opened s then Inl ErrStorageFailure
                    else decode_entries (applications s addr))"
  by (simp add: Lookup_def lookup_def split: sum.splits)

lemma Lookup_Store:
  assumes "Lookup s addr = Inr es" and "sized e" and "Store s addr e = Inr s'"
  shows "Lookup s' addr = Inr (es @ [e])"
proof -
  from Store_result [OF assms(3)] obtain blob where
    o: "opened s" "opened s'" and m: "MarshalBinary e = Inr blob" and
    a: "applications s' = (applications s)(addr := applications s addr @ [blob])"
    by blast
  have d: "decode_entries (applications s addr) = Inr es"
    using assms(1) o by (simp add: Lookup_decode)
  have u: "UnmarshalBinary (Some zeroEntry) blob = (Some e, None)"
    using assms(2) sized_zeroEntry m by (rule UnmarshalBinary_MarshalBinary)
  show ?thesis
    using decode_entries_snoc [OF d u] o by (simp add: Lookup_decode a)
qed

lemma Store_opened: "opened s \<Longrightarrow> \<exists>s'. Store s addr e = Inr s'"
  by (simp add: Store_def store_def MarshalBinary_bytes)

lemma Lookup_emptyDB: "Lookup emptyDB addr = Inr []"
  by (simp add: Lookup_decode emptyDB_def)

lemma sized_ex: "sized ex_e1" "sized ex_e2"
  by (simp_all add: sized_def ex_e1_def ex_e2_def ex_X_def ex_Y_def ex_S_def ex_A_def ex_K1_def ex_K2_def)

lemma reachable_decodes:
  "reachable s \<Longrightarrow> \<exists>es. decode_entries (applications s addr) = Inr es"
proof (induction arbitrary: addr rule: reachable.induct)
  case reachable_empty
  then show ?case by (simp add: emptyDB_def)
next
  case (reachable_Store s e devAddr s')
  from Store_result [OF reachable_Store.hyps(3)] obtain blob where
    o: "opened s" and m: "MarshalBinary e = Inr blob" and
    a: "applications s' = (applications s)(devAddr := applications s devAddr @ [blob])"
    by blast
  show ?case
  proof (cases "addr = devAddr")
    case True
    from reachable_Store.IH [of devAddr] obtain es where
      d: "decode_entries (applications s devAddr) = Inr es" by blast
    have u: "UnmarshalBinary (Some zeroEntry) blob = (Some e, None)"
      using reachable_Store.hyps(2) sized_zeroEntry m by (rule UnmarshalBinary_MarshalBinary)
    from decode_entries_snoc [OF d u] show ?thesis
      by (auto simp: a True)
  next
    case False
    then show ?thesis
      using reachable_Store.IH [of addr] by (simp add: a)
  qed
next
  case (reachable_Reset s s')
  then show ?case
    by (auto simp: Reset_def resetDB_def split: if_splits)
next
  case (reachable_Close s s')
  from reachable_Close.hyps(2) have "applications s' = applications s"
    by (auto simp: Close_def split: if_splits)
  then show ?case
    using reachable_Close.IH [of addr] by simp
qed

text \<open>
  C8. Store and Lookup. In a registry state produced by the operations from the empty
  registry, after \<open>Store\<close> of \<open>e\<close> under an address succeeds, \<open>Lookup\<close> of the address
  returns the entries that it returned before, followed by \<open>e\<close>; after a further
  \<open>Store\<close> of \<open>e2\<close> under the same address it returns them followed by \<open>e\<close> and
  \<open>e2\<close>, in this order: no entry stored before is removed or overwritten.
\<close>

theorem store_lookup_consistency:
  assumes "reachable s" and "sized e" and "sized e2"
    and "Store s addr e = Inr s1" and "Store s1 addr e2 = Inr s2"
  shows "\<exists>es. Lookup s addr = Inr es \<and> Lookup s1 addr = Inr (es @ [e])
              \<and> Lookup s2 addr = Inr (es @ [e, e2])"
proof -
  from Store_result [OF assms(4)] have o: "opened s" by simp
  from reachable_decodes [OF assms(1), of addr] obtain es where
    zero: "Lookup s addr = Inr es"
    using o by (auto simp: Lookup_decode)
  have one: "Lookup s1 addr = Inr (es @ [e])"
    using zero assms(2,4) by (rule Lookup_Store)
  have "Lookup s2 addr = Inr ((es @ [e]) @ [e2])"
    using one assms(3,5) by (rule Lookup_Store)
  then show ?thesis using zero one by simp
qed

theorem store_lookup_consistency_witness:
  "reachable emptyDB \<and> sized ex_e1 \<and> sized ex_e2
   \<and> (\<exists>s1 s2. Store emptyDB ex_A ex_e1 = Inr s1 \<and> Store s1 ex_A ex_e2 = Inr s2
         \<and> Lookup emptyDB ex_A = Inr []
         \<and> Lookup s1 ex_A = Inr [ex_e1] \<and> Lookup s2 ex_A = Inr [ex_e1, ex_e2])"
proof -
  have r: "reachable emptyDB" by (rule reachable_empty)
  have l: "Lookup emptyDB ex_A = Inr []" by (rule Lookup_emptyDB)
  obtain s1 where s1: "Store emptyDB ex_A ex_e1 = Inr s1"
    using Store_opened [of emptyDB ex_A ex_e1] by (auto simp: emptyDB_def)
  obtain s2 where s2: "Store s1 ex_A ex_e2 = Inr s2"
    using Store_opened [of s1 ex_A ex_e2] Store_result [OF s1] by auto
  from store_lookup_consistency [OF r sized_ex s1 s2] l
  have "Lookup s1 ex_A = Inr [ex_e1] \<and> Lookup s2 ex_A = Inr [ex_e1, ex_e2]"
    by auto
  then show ?thesis
    using r l sized_ex s1 s2 by blast
qed

text \<open>
  C9. Reset clears all. After \<open>Reset\<close> succeeds, \<open>Lookup\<close> returns the empty list, not
  an error, for every address, and the registry is the initial empty registry.
\<close>

theorem reset_clears_all:
  assumes "Reset s = Inr s'"
  shows "Lookup s' addr = Inr [] \<and> s' = emptyDB"
proof -
  from assms have "opened s" and "s' = s\<lparr>applications := (\<lambda>k. [])\<rparr>"
    by (auto simp: Reset_def resetDB_def split: if_splits)
  then have "s' = emptyDB"
    by (simp add: emptyDB_def)
  then show ?thesis
    by (simp add: Lookup_emptyDB)
qed

theorem reset_clears_all_witness:
  "\<exists>s1 s'. Store emptyDB ex_A ex_e1 = Inr s1 \<and> Lookup s1 ex_A = Inr [ex_e1]
      \<and> Reset s1 = Inr s' \<and> Lookup s' ex_A = Inr [] \<and> s' = emptyDB"
proof -
  obtain s1 where s1: "Store emptyDB ex_A ex_e1 = Inr s1"
    using Store_opened [of emptyDB ex_A ex_e1] by (auto simp: emptyDB_def)
  have l: "Lookup s1 ex_A = Inr [ex_e1]"
    using Lookup_Store [OF Lookup_emptyDB sized_ex(1) s1] by simp
  have "opened s1" using Store_result [OF s1] by simp
  then obtain s' where r: "Reset s1 = Inr s'"
    by (auto simp: Reset_def resetDB_def)
  show ?thesis
    using s1 l r reset_clears_all [OF r, of ex_A] by blast
qed

section \<open>Lemmas on Partition\<close>

lemma match_entries_first_valid:
  "match_entries vm parts p es =
     (case first_valid vm p es of
        None \<Rightarrow> parts
      | Some e \<Rightarrow> AList.update (partitionId e)
          \<lparr>entry = e, Id_part = partitionId e, Packets = packets_at parts (partitionId e) @ [p]\<rparr> parts)"
  by (induction es) (auto simp: first_valid_def Let_def split: sum.splits)

lemma first_valid_append:
  "\<forall>x\<in>set pre. vm p (NwkSKey x) \<noteq> Inr True \<Longrightarrow> vm p (NwkSKey e) = Inr True \<Longrightarrow>
   first_valid vm p (pre @ e # post) = Some e"
  by (induction pre) (auto simp: first_valid_def)

lemma first_valid_None:
  "(first_valid vm p es = None) = (\<forall>e\<in>set es. vm p (NwkSKey e) \<noteq> Inr True)"
  by (auto simp: first_valid_def find_None_iff)

lemma first_valid_Some:
  "first_valid vm p es = Some e \<Longrightarrow> e \<in> set es \<and> vm p (NwkSKey e) = Inr True"
  by (auto simp: first_valid_def find_Some_iff)

lemma match_entries_distinct:
  "distinct (map fst parts) \<Longrightarrow> distinct (map fst (match_entries vm parts p es))"
  by (simp add: match_entries_first_valid distinct_update split: option.splits)

lemma partition_loop_distinct:
  "partition_loop lk da vm parts pkts = Inr parts' \<Longrightarrow> distinct (map fst parts) \<Longrightarrow>
   distinct (map fst parts')"
proof (induction pkts arbitrary: parts)
  case Nil
  then show ?case by simp
next
  case (Cons p pkts)
  from Cons.prems(1) obtain a es where
    rest: "partition_loop lk da vm (match_entries vm parts p es) pkts = Inr parts'"
    by (auto split: sum.splits)
  show ?case
    by (rule Cons.IH [OF rest match_entries_distinct [OF Cons.prems(2)]])
qed

lemma partition_loop_map_of:
  "partition_loop lk da vm parts pkts = Inr parts' \<Longrightarrow>
   map_of parts' i =
     (let ps = filter (\<lambda>p. matched_id lk da vm p = Some i) pkts in
      if ps = [] then map_of parts i
      else Some \<lparr>entry = the (matched_entry lk da vm (last ps)), Id_part = i,
                 Packets = packets_at parts i @ ps\<rparr>)"
proof (induction pkts arbitrary: parts)
  case Nil
  then show ?case by simp
next
  case (Cons p pkts)
  from Cons.prems obtain a es where a: "da p = Inr a" and es: "lk a = Inr es"
    and rest: "partition_loop lk da vm (match_entries vm parts p es) pkts = Inr parts'"
    by (auto split: sum.splits)
  let ?parts1 = "match_entries vm parts p es"
  let ?ps = "filter (\<lambda>p. matched_id lk da vm p = Some i) pkts"
  have me: "matched_entry lk da vm p = first_valid vm p es"
    by (simp add: matched_entry_def a es)
  note ih = Cons.IH [OF rest]
  show ?case
  proof (cases "matched_id lk da vm p = Some i")
    case True
    then obtain e where e: "first_valid vm p es = Some e" and i: "partitionId e = i"
      by (auto simp: matched_id_def me)
    have m1: "map_of ?parts1 i = Some \<lparr>entry = e, Id_part = i, Packets = packets_at parts i @ [p]\<rparr>"
      by (simp add: match_entries_first_valid e i update_conv')
    then have p1: "packets_at ?parts1 i = packets_at parts i @ [p]"
      by (simp add: packets_at_def)
    show ?thesis
      using ih True m1 p1 by (simp add: Let_def me e)
  next
    case False
    have m1: "map_of ?parts1 i = map_of parts i"
      using False by (auto simp: match_entries_first_valid matched_id_def me update_conv' split: option.splits)
    then have p1: "packets_at ?parts1 i = packets_at parts i"
      by (simp add: packets_at_def)
    show ?thesis
      using ih False m1 p1 by (simp add: Let_def)
  qed
qed

lemma Partition_Inr:
  "Partition lk da vm pkts = Inr res \<Longrightarrow>
   \<exists>parts. partition_loop lk da vm [] pkts = Inr parts \<and> res = map snd parts \<and> parts \<noteq> []"
  by (auto simp: Partition_def Let_def split: sum.splits if_splits)

lemma Partition_of_loop:
  "partition_loop lk da vm [] pkts = Inr parts \<Longrightarrow>
   Partition lk da vm pkts = (if parts = [] then Inl ErrNotFound else Inr (map snd parts))"
  by (simp add: Partition_def Let_def)

lemma partition_loop_total:
  "\<forall>p\<in>set pkts. \<exists>a es. da p = Inr a \<and> lk a = Inr es \<Longrightarrow>
   \<exists>parts'. partition_loop lk da vm parts pkts = Inr parts'"
  by (induction pkts arbitrary: parts) auto

lemma Partition_member:
  assumes "Partition lk da vm pkts = Inr res"
  shows "(part \<in> set res) =
         (\<exists>i. filter (\<lambda>p. matched_id lk da vm p = Some i) pkts \<noteq> []
            \<and> part = \<lparr>entry = the (matched_entry lk da vm
                                  (last (filter (\<lambda>p. matched_id lk da vm p = Some i) pkts))),
                      Id_part = i,
                      Packets = filter (\<lambda>p. matched_id lk da vm p = Some i) pkts\<rparr>)"
proof -
  from Partition_Inr [OF assms] obtain parts where
    loop: "partition_loop lk da vm [] pkts = Inr parts" and res: "res = map snd parts"
    by blast
  have d: "distinct (map fst parts)"
    using partition_loop_distinct [OF loop] by simp
  have m: "\<And>i. map_of parts i =
     (if filter (\<lambda>p. matched_id lk da vm p = Some i) pkts = [] then None
      else Some \<lparr>entry = the (matched_entry lk da vm
                              (last (filter (\<lambda>p. matched_id lk da vm p = Some i) pkts))),
                 Id_part = i,
                 Packets = filter (\<lambda>p. matched_id lk da vm p = Some i) pkts\<rparr>)"
    using partition_loop_map_of [OF loop] by (simp add: Let_def packets_at_def)
  have "(part \<in> set res) = (\<exists>i. (i, part) \<in> set parts)"
    by (force simp: res)
  also have "\<dots> = (\<exists>i. map_of parts i = Some part)"
    using d by simp
  finally show ?thesis
    by (auto simp: m)
qed

lemma matched_id_Some:
  "matched_entry lk da vm p = Some e \<Longrightarrow> matched_id lk da vm p = Some (partitionId e)"
  by (simp add: matched_id_def)

lemma last_filter_sat: "filter P xs \<noteq> [] \<Longrightarrow> P (last (filter P xs))"
  using last_in_set [of "filter P xs"] by simp

lemma Partition_entry_id:
  assumes "Partition lk da vm pkts = Inr res" and "part \<in> set res"
  shows "\<exists>e. matched_entry lk da vm (last (Packets part)) = Some e \<and> entry part = e
             \<and> partitionId e = Id_part part"
proof -
  from assms obtain i where
    ne: "filter (\<lambda>p. matched_id lk da vm p = Some i) pkts \<noteq> []" and
    part: "part = \<lparr>entry = the (matched_entry lk da vm
                                  (last (filter (\<lambda>p. matched_id lk da vm p = Some i) pkts))),
                      Id_part = i,
                      Packets = filter (\<lambda>p. matched_id lk da vm p = Some i) pkts\<rparr>"
    by (auto simp: Partition_member)
  have "matched_id lk da vm (last (filter (\<lambda>p. matched_id lk da vm p = Some i) pkts)) = Some i"
    using last_filter_sat [OF ne] .
  then show ?thesis
    by (auto simp: part matched_id_def)
qed

lemmas ex_defs = ex_lk_def ex_da_def ex_vm_def ex_e1_def ex_e2_def
  ex_X_def ex_Y_def ex_A_def ex_B_def ex_K1_def ex_K2_def ex_S_def

lemmas run_defs = Partition_def partitionId_def copy_def packets_at_def Let_def

text \<open>
  C1. First-match policy. A packet \<open>p\<close> of the batch has the address \<open>a\<close>, and \<open>Lookup\<close>
  returns for \<open>a\<close> the candidates \<open>pre @ e # post\<close>, where no candidate of \<open>pre\<close>
  passes the integrity check and \<open>e\<close> does. Then the inner loop ends at \<open>e\<close>: whatever
  \<open>post\<close> is, its result is the map in which the partition of \<open>e\<close> has the snapshot \<open>e\<close>
  and got \<open>p\<close> appended. In the result of a successful call, \<open>p\<close> is in the partition
  with the id of \<open>e\<close> and in no partition with another id, also when candidates of
  \<open>post\<close> would validate.
\<close>

theorem partition_first_match:
  assumes "Partition lk da vm pkts = Inr res"
    and "p \<in> set pkts" and "da p = Inr a" and "lk a = Inr (pre @ e # post)"
    and "\<forall>x\<in>set pre. vm p (NwkSKey x) \<noteq> Inr True"
    and "vm p (NwkSKey e) = Inr True"
  shows "match_entries vm parts p (pre @ e # post)
           = AList.update (partitionId e)
               \<lparr>entry = e, Id_part = partitionId e,
                Packets = packets_at parts (partitionId e) @ [p]\<rparr> parts
         \<and> (\<exists>part\<in>set res. Id_part part = partitionId e \<and> p \<in> set (Packets part))
         \<and> (\<forall>part\<in>set res. p \<in> set (Packets part) \<longrightarrow> Id_part part = partitionId e)"
proof -
  have fv: "first_valid vm p (pre @ e # post) = Some e"
    using assms(5,6) by (rule first_valid_append)
  have me: "matched_entry lk da vm p = Some e"
    by (simp add: matched_entry_def assms(3,4) fv)
  have mi: "matched_id lk da vm p = Some (partitionId e)"
    using me by (rule matched_id_Some)
  have one: "match_entries vm parts p (pre @ e # post)
           = AList.update (partitionId e)
               \<lparr>entry = e, Id_part = partitionId e,
                Packets = packets_at parts (partitionId e) @ [p]\<rparr> parts"
    by (simp add: match_entries_first_valid fv)
  let ?ps = "filter (\<lambda>q. matched_id lk da vm q = Some (partitionId e)) pkts"
  have pin: "p \<in> set ?ps"
    using assms(2) mi by simp
  have ne: "?ps \<noteq> []"
    by (metis pin empty_iff empty_set)
  have two: "\<exists>part\<in>set res. Id_part part = partitionId e \<and> p \<in> set (Packets part)"
  proof -
    have "\<lparr>entry = the (matched_entry lk da vm (last ?ps)), Id_part = partitionId e,
           Packets = ?ps\<rparr> \<in> set res"
      using ne by (auto simp: Partition_member [OF assms(1)])
    then show ?thesis using pin by force
  qed
  have three: "\<forall>part\<in>set res. p \<in> set (Packets part) \<longrightarrow> Id_part part = partitionId e"
    using mi by (auto simp: Partition_member [OF assms(1)])
  show ?thesis using one two three by blast
qed

theorem partition_first_match_witness:
  "Partition ex_lk ex_da ex_vm [7]
     = Inr [\<lparr>entry = ex_e1, Id_part = ex_X @ ex_A, Packets = [7]\<rparr>]
   \<and> ex_da 7 = Inr ex_A \<and> ex_lk ex_A = Inr ([] @ ex_e1 # [ex_e2])
   \<and> ex_vm 7 (NwkSKey ex_e1) = Inr True
   \<and> ex_vm 7 (NwkSKey ex_e2) = Inr True
   \<and> match_entries ex_vm [] 7 ([] @ ex_e1 # [ex_e2])
       = AList.update (partitionId ex_e1)
           \<lparr>entry = ex_e1, Id_part = partitionId ex_e1,
            Packets = packets_at [] (partitionId ex_e1) @ [7]\<rparr> []"
proof -
  have r: "Partition ex_lk ex_da ex_vm [7]
     = Inr [\<lparr>entry = ex_e1, Id_part = ex_X @ ex_A, Packets = [7]\<rparr>]"
    by (simp add: ex_defs run_defs)
  have p: "(7::nat) \<in> set [7]" by simp
  have a: "ex_da 7 = Inr ex_A" by (simp add: ex_defs)
  have l: "ex_lk ex_A = Inr ([] @ ex_e1 # [ex_e2])" by (simp add: ex_defs)
  have n: "\<forall>x\<in>set []. ex_vm 7 (NwkSKey x) \<noteq> Inr True" by simp
  have v: "ex_vm 7 (NwkSKey ex_e1) = Inr True" by (simp add: ex_defs)
  have v2: "ex_vm 7 (NwkSKey ex_e2) = Inr True" by (simp add: ex_defs)
  show ?thesis
    using r a l v v2 partition_first_match [OF r p a l n v, of "[]"]
    by simp
qed

lemma match_entries_errors_as_false:
  "match_entries (errors_as_false vm) parts p es = match_entries vm parts p es"
  by (induction es) (auto simp: errors_as_false_def split: sum.splits)

lemma partition_loop_errors_as_false:
  "partition_loop lk da (errors_as_false vm) parts pkts = partition_loop lk da vm parts pkts"
  by (induction pkts arbitrary: parts) (auto simp: match_entries_errors_as_false split: sum.splits)

text \<open>
  C10. An error of the integrity check is treated as the answer false. \<open>Partition\<close>
  returns the same result (the same error or the same partitions) as with an integrity
  check that answers false wherever the given one returns an error, so the error is never
  propagated; and a candidate on which the check returns an error is skipped: the loop
  continues with the remaining candidates.
\<close>

theorem partition_mic_error_skipped:
  "Partition lk da vm pkts = Partition lk da (errors_as_false vm) pkts
   \<and> (vm p (NwkSKey e) = Inl x \<longrightarrow>
        match_entries vm parts p (e # es) = match_entries vm parts p es)"
  by (simp add: Partition_def partition_loop_errors_as_false)

theorem partition_mic_error_skipped_witness:
  "ex_vm 4 (NwkSKey ex_e1) = Inl ()
   \<and> match_entries ex_vm [] 4 (ex_e1 # [ex_e2]) = match_entries ex_vm [] 4 [ex_e2]
   \<and> Partition ex_lk ex_da ex_vm [4] = Partition ex_lk ex_da (errors_as_false ex_vm) [4]
   \<and> Partition ex_lk ex_da ex_vm [4]
       = Inr [\<lparr>entry = ex_e2, Id_part = ex_Y @ ex_A, Packets = [4]\<rparr>]"
proof -
  have h: "ex_vm 4 (NwkSKey ex_e1) = Inl ()"
    by (simp add: ex_defs)
  have r: "Partition ex_lk ex_da ex_vm [4]
       = Inr [\<lparr>entry = ex_e2, Id_part = ex_Y @ ex_A, Packets = [4]\<rparr>]"
    by (simp add: ex_defs run_defs)
  show ?thesis
    using h r partition_mic_error_skipped [of ex_lk ex_da ex_vm "[4]" 4 ex_e1 "()" "[]" "[ex_e2]"]
    by simp
qed

text \<open>
  C4. When every packet of the batch has an address, \<open>Lookup\<close> returns its candidates
  and none of them validates (in particular when there are no candidates), the call fails
  with \<open>ErrNotFound\<close>. When the loop runs through and some packet has a candidate that
  validates, the call returns a non-empty list of partitions. A returned list is never
  empty.
\<close>

theorem partition_not_found:
  "((\<forall>p\<in>set pkts. \<exists>a es. da p = Inr a \<and> lk a = Inr es
        \<and> (\<forall>e\<in>set es. vm p (NwkSKey e) \<noteq> Inr True))
      \<longrightarrow> Partition lk da vm pkts = Inl ErrNotFound)
   \<and> ((\<forall>p\<in>set pkts. \<exists>a es. da p = Inr a \<and> lk a = Inr es)
        \<and> (\<exists>p\<in>set pkts. \<exists>a es. da p = Inr a \<and> lk a = Inr es
              \<and> (\<exists>e\<in>set es. vm p (NwkSKey e) = Inr True))
      \<longrightarrow> (\<exists>res. Partition lk da vm pkts = Inr res \<and> res \<noteq> []))
   \<and> (\<forall>res. Partition lk da vm pkts = Inr res \<longrightarrow> res \<noteq> [])"
proof (intro conjI impI allI)
  assume none: "\<forall>p\<in>set pkts. \<exists>a es. da p = Inr a \<and> lk a = Inr es
        \<and> (\<forall>e\<in>set es. vm p (NwkSKey e) \<noteq> Inr True)"
  then have "\<forall>p\<in>set pkts. \<exists>a es. da p = Inr a \<and> lk a = Inr es" by blast
  from partition_loop_total [OF this] obtain parts where
    loop: "partition_loop lk da vm [] pkts = Inr parts" by blast
  have nomatch: "\<And>p i. p \<in> set pkts \<Longrightarrow> matched_id lk da vm p \<noteq> Some i"
  proof -
    fix p i assume "p \<in> set pkts"
    with none obtain a es where "da p = Inr a" "lk a = Inr es"
      "\<forall>e\<in>set es. vm p (NwkSKey e) \<noteq> Inr True" by blast
    then have "matched_entry lk da vm p = None"
      by (simp add: matched_entry_def first_valid_None)
    then show "matched_id lk da vm p \<noteq> Some i"
      by (simp add: matched_id_def)
  qed
  have "\<And>i. map_of parts i = None"
    using partition_loop_map_of [OF loop] nomatch by (simp add: Let_def filter_empty_conv)
  then have "parts = []"
    by (metis list.exhaust map_of_Cons_code(2) option.distinct(1) prod.exhaust)
  then show "Partition lk da vm pkts = Inl ErrNotFound"
    using Partition_of_loop [OF loop] by simp
next
  assume h: "(\<forall>p\<in>set pkts. \<exists>a es. da p = Inr a \<and> lk a = Inr es)
        \<and> (\<exists>p\<in>set pkts. \<exists>a es. da p = Inr a \<and> lk a = Inr es
              \<and> (\<exists>e\<in>set es. vm p (NwkSKey e) = Inr True))"
  then have "\<forall>p\<in>set pkts. \<exists>a es. da p = Inr a \<and> lk a = Inr es" by blast
  from partition_loop_total [OF this] obtain parts where
    loop: "partition_loop lk da vm [] pkts = Inr parts" by blast
  from h obtain p a es e where p: "p \<in> set pkts" and "da p = Inr a" "lk a = Inr es"
    "e \<in> set es" "vm p (NwkSKey e) = Inr True" by blast
  then have "matched_entry lk da vm p \<noteq> None"
    by (auto simp: matched_entry_def first_valid_None)
  then obtain i where i: "matched_id lk da vm p = Some i"
    by (auto simp: matched_id_def)
  have "filter (\<lambda>q. matched_id lk da vm q = Some i) pkts \<noteq> []"
    using p i by (auto simp: filter_empty_conv)
  then have "map_of parts i \<noteq> None"
    using partition_loop_map_of [OF loop, of i] by (simp add: Let_def)
  then have "parts \<noteq> []" by auto
  then show "\<exists>res. Partition lk da vm pkts = Inr res \<and> res \<noteq> []"
    using Partition_of_loop [OF loop] by simp
next
  fix res assume "Partition lk da vm pkts = Inr res"
  from Partition_Inr [OF this] show "res \<noteq> []" by auto
qed

theorem partition_not_found_witness:
  "Partition ex_lk ex_da ex_vm [3, 6] = Inl ErrNotFound
   \<and> Partition ex_lk ex_da ex_vm [1, 3]
       = Inr [\<lparr>entry = ex_e1, Id_part = ex_X @ ex_A, Packets = [1]\<rparr>]"
proof -
  have a: "\<forall>p\<in>set [3, 6]. \<exists>a es. ex_da p = Inr a \<and> ex_lk a = Inr es
        \<and> (\<forall>e\<in>set es. ex_vm p (NwkSKey e) \<noteq> Inr True)"
    by (simp add: ex_defs)
  have b: "(\<forall>p\<in>set [1, 3]. \<exists>a es. ex_da p = Inr a \<and> ex_lk a = Inr es)
        \<and> (\<exists>p\<in>set [1, 3]. \<exists>a es. ex_da p = Inr a \<and> ex_lk a = Inr es
              \<and> (\<exists>e\<in>set es. ex_vm p (NwkSKey e) = Inr True))"
    by (simp add: ex_defs)
  have c: "Partition ex_lk ex_da ex_vm [1, 3]
       = Inr [\<lparr>entry = ex_e1, Id_part = ex_X @ ex_A, Packets = [1]\<rparr>]"
    by (simp add: ex_defs run_defs)
  have "Partition ex_lk ex_da ex_vm [3, 6] = Inl ErrNotFound"
    using partition_not_found [of "[3, 6]" ex_da ex_lk ex_vm] a by blast
  moreover have "\<exists>res. Partition ex_lk ex_da ex_vm [1, 3] = Inr res \<and> res \<noteq> []"
    using partition_not_found [of "[1, 3]" ex_da ex_lk ex_vm] b by blast
  ultimately show ?thesis using c by simp
qed

lemma partitionId_sized: "sized e \<Longrightarrow> partitionId e = AppEUI e @ DevAddr e"
  by (simp add: partitionId_def sized_def copy_def)

text \<open>
  C5. Order preservation. The packets of a returned partition are exactly the packets of
  the batch matched to the id of the partition, in the order of the batch (so they are a
  subsequence of the batch, and there is at least one). The snapshot of the partition is
  the entry matched by the last of them, and the id of the partition is the id computed
  from the snapshot. The step that builds the partitions: a packet \<open>q\<close> matched to the
  candidate \<open>e\<close> is appended to the packets that the map holds under the id of \<open>e\<close> (none
  on first use, which creates the partition), and the snapshot is set to \<open>e\<close>.
\<close>

theorem partition_order_preserved:
  assumes "Partition lk da vm pkts = Inr res" and "part \<in> set res"
  shows "Packets part = filter (\<lambda>p. matched_id lk da vm p = Some (Id_part part)) pkts
         \<and> subseq (Packets part) pkts
         \<and> Packets part \<noteq> []
         \<and> matched_entry lk da vm (last (Packets part)) = Some (entry part)
         \<and> partitionId (entry part) = Id_part part
         \<and> (vm q (NwkSKey e) = Inr True \<longrightarrow>
              map_of (match_entries vm parts q (e # es)) (partitionId e)
                = Some \<lparr>entry = e, Id_part = partitionId e,
                        Packets = (case map_of parts (partitionId e) of
                                     None \<Rightarrow> [] | Some old \<Rightarrow> Packets old) @ [q]\<rparr>)"
proof -
  from assms obtain i where
    ne: "filter (\<lambda>p. matched_id lk da vm p = Some i) pkts \<noteq> []" and
    part: "part = \<lparr>entry = the (matched_entry lk da vm
                                  (last (filter (\<lambda>p. matched_id lk da vm p = Some i) pkts))),
                      Id_part = i,
                      Packets = filter (\<lambda>p. matched_id lk da vm p = Some i) pkts\<rparr>"
    by (auto simp: Partition_member)
  have a: "Packets part = filter (\<lambda>p. matched_id lk da vm p = Some (Id_part part)) pkts"
    by (simp add: part)
  have b: "subseq (Packets part) pkts"
    by (simp add: part)
  have c: "Packets part \<noteq> []"
    using ne by (simp add: part)
  have d: "matched_entry lk da vm (last (Packets part)) = Some (entry part)
           \<and> partitionId (entry part) = Id_part part"
    using Partition_entry_id [OF assms] by auto
  have e: "vm q (NwkSKey e) = Inr True \<longrightarrow>
              map_of (match_entries vm parts q (e # es)) (partitionId e)
                = Some \<lparr>entry = e, Id_part = partitionId e,
                        Packets = (case map_of parts (partitionId e) of
                                     None \<Rightarrow> [] | Some old \<Rightarrow> Packets old) @ [q]\<rparr>"
    by (simp add: Let_def update_conv' packets_at_def)
  show ?thesis using a b c d e by blast
qed

theorem partition_order_preserved_witness:
  "Partition ex_lk ex_da ex_vm [2, 1, 3, 4, 1]
     = Inr [\<lparr>entry = ex_e2, Id_part = ex_Y @ ex_A, Packets = [2, 4]\<rparr>,
            \<lparr>entry = ex_e1, Id_part = ex_X @ ex_A, Packets = [1, 1]\<rparr>]
   \<and> subseq [2, 4] [2, 1, 3, 4, 1::nat]
   \<and> matched_entry ex_lk ex_da ex_vm 4 = Some ex_e2
   \<and> partitionId ex_e2 = ex_Y @ ex_A
   \<and> ex_vm 2 (NwkSKey ex_e2) = Inr True
   \<and> map_of (match_entries ex_vm [] 2 [ex_e2]) (ex_Y @ ex_A)
       = Some \<lparr>entry = ex_e2, Id_part = ex_Y @ ex_A, Packets = [2]\<rparr>"
proof -
  have r: "Partition ex_lk ex_da ex_vm [2, 1, 3, 4, 1]
     = Inr [\<lparr>entry = ex_e2, Id_part = ex_Y @ ex_A, Packets = [2, 4]\<rparr>,
            \<lparr>entry = ex_e1, Id_part = ex_X @ ex_A, Packets = [1, 1]\<rparr>]"
    by (simp add: ex_defs run_defs)
  have m: "\<lparr>entry = ex_e2, Id_part = ex_Y @ ex_A, Packets = [2, 4::nat]\<rparr>
           \<in> set [\<lparr>entry = ex_e2, Id_part = ex_Y @ ex_A, Packets = [2, 4]\<rparr>,
                   \<lparr>entry = ex_e1, Id_part = ex_X @ ex_A, Packets = [1, 1]\<rparr>]"
    by simp
  have v: "ex_vm 2 (NwkSKey ex_e2) = Inr True"
    by (simp add: ex_defs)
  show ?thesis
    using r v partition_order_preserved [OF r m, of 2 ex_e2 "[]" "[]"]
    by (simp add: Let_def packets_at_def)
qed

text \<open>
  The statement of C2 for any two entries fails when both entries carry the same
  application id and the same short address: packet 2 validates under \<open>K2\<close> only, and
  the call returns it in the one partition of that id, whose snapshot is the entry with
  the key \<open>K1\<close>, matched by the later packet 1.
\<close>

theorem partition_collision_counterexample:
  "ex_lk_sameapp ex_A = Inr [ex_e1, ex_e2X]
   \<and> ex_da 2 = Inr ex_A
   \<and> NwkSKey ex_e1 \<noteq> NwkSKey ex_e2X
   \<and> ex_vm 2 (NwkSKey ex_e2X) = Inr True
   \<and> ex_vm 2 (NwkSKey ex_e1) = Inr False
   \<and> Partition ex_lk_sameapp ex_da ex_vm [2, 1]
       = Inr [\<lparr>entry = ex_e1, Id_part = ex_X @ ex_A, Packets = [2, 1]\<rparr>]"
  by (simp add: ex_defs ex_lk_sameapp_def ex_e2X_def run_defs)

text \<open>
  C2, as amended. Two entries \<open>e1\<close> and \<open>e2\<close> with different network session keys are
  candidates for the address of a packet \<open>p\<close> of the batch; among the candidates the
  integrity check of \<open>p\<close> validates for \<open>e2\<close> only; and \<open>e2\<close> is the only registered
  entry with its pair of application id and short address. Then a successful call places
  \<open>p\<close> in a partition whose snapshot is \<open>e2\<close> and whose id is the application id of
  \<open>e2\<close> followed by the short address held in \<open>e2\<close>, and every partition that holds
  \<open>p\<close> has the snapshot \<open>e2\<close>, not \<open>e1\<close>.
\<close>

theorem partition_collision_resolution:
  assumes "Partition lk da vm pkts = Inr res"
    and "p \<in> set pkts" and "da p = Inr a" and "lk a = Inr es"
    and "e1 \<in> set es" and "e2 \<in> set es" and "NwkSKey e1 \<noteq> NwkSKey e2"
    and "\<forall>e\<in>set es. (vm p (NwkSKey e) = Inr True) = (e = e2)"
    and "\<forall>b es'. lk b = Inr es' \<longrightarrow> (\<forall>e\<in>set es'. partitionId e = partitionId e2 \<longrightarrow> e = e2)"
    and "sized e2"
  shows "(\<exists>part\<in>set res. entry part = e2 \<and> Id_part part = AppEUI e2 @ DevAddr e2
                         \<and> p \<in> set (Packets part))
         \<and> (\<forall>part\<in>set res. p \<in> set (Packets part) \<longrightarrow> entry part = e2 \<and> entry part \<noteq> e1)"
proof -
  have ne12: "e1 \<noteq> e2" using assms(7) by auto
  have "first_valid vm p es \<noteq> None"
    using assms(6,8) by (auto simp: first_valid_None)
  then obtain e where e: "first_valid vm p es = Some e" by auto
  from first_valid_Some [OF e] assms(8) have "e = e2" by auto
  with e have me: "matched_entry lk da vm p = Some e2"
    by (simp add: matched_entry_def assms(3,4))
  have mi: "matched_id lk da vm p = Some (partitionId e2)"
    using me by (rule matched_id_Some)
  have snap: "\<And>part. part \<in> set res \<Longrightarrow> Id_part part = partitionId e2 \<Longrightarrow> entry part = e2"
  proof -
    fix part assume part: "part \<in> set res" and i: "Id_part part = partitionId e2"
    from Partition_entry_id [OF assms(1) part] obtain e' where
      m: "matched_entry lk da vm (last (Packets part)) = Some e'" and
      e': "entry part = e'" and pid: "partitionId e' = Id_part part" by blast
    from m obtain b es' where lkb: "lk b = Inr es'" and
      fv: "first_valid vm (last (Packets part)) es' = Some e'"
      by (auto simp: matched_entry_def split: sum.splits)
    from first_valid_Some [OF fv] have "e' \<in> set es'" by simp
    with assms(9) lkb pid i have "e' = e2" by auto
    with e' show "entry part = e2" by simp
  qed
  let ?ps = "filter (\<lambda>q. matched_id lk da vm q = Some (partitionId e2)) pkts"
  have pin: "p \<in> set ?ps"
    using assms(2) mi by simp
  have ne: "?ps \<noteq> []"
    by (metis pin empty_iff empty_set)
  let ?part = "\<lparr>entry = the (matched_entry lk da vm (last ?ps)), Id_part = partitionId e2,
           Packets = ?ps\<rparr>"
  have mem: "?part \<in> set res"
    using ne by (auto simp: Partition_member [OF assms(1)])
  have "entry ?part = e2"
    by (rule snap [OF mem]) simp
  moreover have "Id_part ?part = AppEUI e2 @ DevAddr e2"
    by (simp add: partitionId_sized [OF assms(10)])
  moreover have "p \<in> set (Packets ?part)"
    using pin by simp
  ultimately have one: "\<exists>part\<in>set res. entry part = e2 \<and> Id_part part = AppEUI e2 @ DevAddr e2
                         \<and> p \<in> set (Packets part)"
    using mem by blast
  have two: "\<forall>part\<in>set res. p \<in> set (Packets part) \<longrightarrow> entry part = e2 \<and> entry part \<noteq> e1"
  proof (intro ballI impI)
    fix part assume part: "part \<in> set res" and "p \<in> set (Packets part)"
    then have "Id_part part = partitionId e2"
      using mi by (auto simp: Partition_member [OF assms(1)])
    from snap [OF part this] ne12 show "entry part = e2 \<and> entry part \<noteq> e1" by simp
  qed
  show ?thesis using one two by blast
qed

theorem partition_collision_resolution_witness:
  "Partition ex_lk ex_da ex_vm [1, 2, 3]
     = Inr [\<lparr>entry = ex_e1, Id_part = ex_X @ ex_A, Packets = [1]\<rparr>,
            \<lparr>entry = ex_e2, Id_part = ex_Y @ ex_A, Packets = [2]\<rparr>]
   \<and> ex_da 2 = Inr ex_A \<and> ex_lk ex_A = Inr [ex_e1, ex_e2]
   \<and> NwkSKey ex_e1 \<noteq> NwkSKey ex_e2
   \<and> ex_vm 2 (NwkSKey ex_e2) = Inr True \<and> ex_vm 2 (NwkSKey ex_e1) = Inr False
   \<and> sized ex_e2
   \<and> (\<exists>part\<in>set [\<lparr>entry = ex_e1, Id_part = ex_X @ ex_A, Packets = [1]\<rparr>,
                     \<lparr>entry = ex_e2, Id_part = ex_Y @ ex_A, Packets = [2]\<rparr>].
          entry part = ex_e2 \<and> Id_part part = AppEUI ex_e2 @ DevAddr ex_e2
          \<and> (2::nat) \<in> set (Packets part))"
proof -
  have r: "Partition ex_lk ex_da ex_vm [1, 2, 3]
     = Inr [\<lparr>entry = ex_e1, Id_part = ex_X @ ex_A, Packets = [1]\<rparr>,
            \<lparr>entry = ex_e2, Id_part = ex_Y @ ex_A, Packets = [2]\<rparr>]"
    by (simp add: ex_defs run_defs)
  have p: "(2::nat) \<in> set [1, 2, 3]" by simp
  have a: "ex_da 2 = Inr ex_A" by (simp add: ex_defs)
  have l: "ex_lk ex_A = Inr [ex_e1, ex_e2]" by (simp add: ex_defs)
  have m1: "ex_e1 \<in> set [ex_e1, ex_e2]" and m2: "ex_e2 \<in> set [ex_e1, ex_e2]" by simp_all
  have k: "NwkSKey ex_e1 \<noteq> NwkSKey ex_e2" by (simp add: ex_defs)
  have v: "\<forall>e\<in>set [ex_e1, ex_e2]. (ex_vm 2 (NwkSKey e) = Inr True) = (e = ex_e2)"
    by (simp add: ex_defs)
  have u: "\<forall>b es'. ex_lk b = Inr es' \<longrightarrow>
             (\<forall>e\<in>set es'. partitionId e = partitionId ex_e2 \<longrightarrow> e = ex_e2)"
    by (auto simp: ex_defs partitionId_def copy_def split: if_splits)
  have s: "sized ex_e2" by (simp add: sized_def ex_defs)
  have v2: "ex_vm 2 (NwkSKey ex_e2) = Inr True \<and> ex_vm 2 (NwkSKey ex_e1) = Inr False"
    by (simp add: ex_defs)
  show ?thesis
    using r a l k v2 s partition_collision_resolution [OF r p a l m1 m2 k v u s]
    by blast
qed

lemma partition_loop_malformed:
  "da p = Inl x \<Longrightarrow>
   (\<exists>failure. partition_loop lk da vm parts (pre @ p # post) = Inl failure)
   \<and> ((\<forall>q\<in>set pre. \<forall>a. da q = Inr a \<longrightarrow> (\<exists>es. lk a = Inr es))
        \<longrightarrow> partition_loop lk da vm parts (pre @ p # post) = Inl ErrInvalidStructure)"
proof (induction pre arbitrary: parts)
  case Nil
  then show ?case by simp
next
  case (Cons q pre)
  show ?case
  proof (cases "da q")
    case (Inl y)
    then show ?thesis by simp
  next
    case (Inr a)
    show ?thesis
    proof (cases "lk a")
      case (Inl failure)
      then show ?thesis using Inr by auto
    next
      case (Inr es)
      then show ?thesis
        using \<open>da q = Inr a\<close>
          Cons.IH [where parts = "match_entries vm parts q es", OF Cons.prems]
        by simp
    qed
  qed
qed

lemma partition_loop_lookup_error:
  "\<forall>r\<in>set pre1. \<exists>b es. da r = Inr b \<and> lk b = Inr es \<Longrightarrow>
   da q = Inr a \<Longrightarrow> lk a = Inl failure \<Longrightarrow>
   partition_loop lk da vm parts (pre1 @ q # rest) = Inl failure"
proof (induction pre1 arbitrary: parts)
  case Nil
  then show ?case by simp
next
  case (Cons r pre1)
  from Cons.prems(1) obtain b es where b: "da r = Inr b" and es: "lk b = Inr es"
    by auto
  from Cons.prems(1) have tl: "\<forall>r\<in>set pre1. \<exists>b es. da r = Inr b \<and> lk b = Inr es"
    by simp
  show ?case
    using Cons.IH [where parts = "match_entries vm parts r es", OF tl Cons.prems(2,3)]
    by (simp add: b es)
qed

text \<open>
  The statement of C3 with \<open>ErrInvalidStructure\<close> for every batch fails when \<open>Lookup\<close>
  fails for a packet in front of the malformed one: the call returns the error of
  \<open>Lookup\<close>.
\<close>

theorem partition_malformed_counterexample:
  "ex_da 5 = Inl ()
   \<and> Partition ex_lk_failing ex_da ex_vm [6, 5] = Inl ErrStorageFailure
   \<and> Partition ex_lk_failing ex_da ex_vm [6, 5] \<noteq> Inl ErrInvalidStructure"
  by (simp add: ex_defs ex_lk_failing_def run_defs)

text \<open>
  C3, as amended. A batch \<open>pre @ p # post\<close> in which the address of \<open>p\<close> cannot be
  extracted makes the whole call fail: it returns an error and no partition list, whatever
  the other packets are. The error is \<open>ErrInvalidStructure\<close> when \<open>Lookup\<close> succeeds
  for every packet of \<open>pre\<close> that has an address. When instead \<open>Lookup\<close> fails for a
  packet \<open>q\<close> of \<open>pre\<close>, and every packet in front of \<open>q\<close> has an address for which
  \<open>Lookup\<close> succeeds, the call returns the error of that \<open>Lookup\<close> as it is.
\<close>

theorem partition_malformed_batch:
  assumes "da p = Inl x"
  shows "(\<exists>failure. Partition lk da vm (pre @ p # post) = Inl failure)
         \<and> ((\<forall>q\<in>set pre. \<forall>a. da q = Inr a \<longrightarrow> (\<exists>es. lk a = Inr es))
              \<longrightarrow> Partition lk da vm (pre @ p # post) = Inl ErrInvalidStructure)
         \<and> (pre = pre1 @ q # pre2
              \<and> (\<forall>r\<in>set pre1. \<exists>b es. da r = Inr b \<and> lk b = Inr es)
              \<and> da q = Inr a \<and> lk a = Inl failure
              \<longrightarrow> Partition lk da vm (pre @ p # post) = Inl failure)"
proof -
  have one: "(\<exists>failure. Partition lk da vm (pre @ p # post) = Inl failure)
         \<and> ((\<forall>q\<in>set pre. \<forall>a. da q = Inr a \<longrightarrow> (\<exists>es. lk a = Inr es))
              \<longrightarrow> Partition lk da vm (pre @ p # post) = Inl ErrInvalidStructure)"
    using partition_loop_malformed
            [where da = da and p = p and x = x and lk = lk and vm = vm and parts = "[]"
               and pre = pre and post = post, OF assms]
    by (auto simp: Partition_def)
  have two: "pre = pre1 @ q # pre2
              \<and> (\<forall>r\<in>set pre1. \<exists>b es. da r = Inr b \<and> lk b = Inr es)
              \<and> da q = Inr a \<and> lk a = Inl failure
              \<longrightarrow> Partition lk da vm (pre @ p # post) = Inl failure"
  proof
    assume h: "pre = pre1 @ q # pre2
              \<and> (\<forall>r\<in>set pre1. \<exists>b es. da r = Inr b \<and> lk b = Inr es)
              \<and> da q = Inr a \<and> lk a = Inl failure"
    then have ok: "\<forall>r\<in>set pre1. \<exists>b es. da r = Inr b \<and> lk b = Inr es"
      and q: "da q = Inr a" and f: "lk a = Inl failure" by simp_all
    have "partition_loop lk da vm [] (pre1 @ q # (pre2 @ p # post)) = Inl failure"
      using ok q f by (rule partition_loop_lookup_error)
    moreover have "pre @ p # post = pre1 @ q # (pre2 @ p # post)"
      using h by simp
    ultimately show "Partition lk da vm (pre @ p # post) = Inl failure"
      by (simp add: Partition_def)
  qed
  show ?thesis using one two by blast
qed

theorem partition_malformed_batch_witness:
  "ex_da 5 = Inl ()
   \<and> Partition ex_lk ex_da ex_vm ([1] @ 5 # [2]) = Inl ErrInvalidStructure
   \<and> ex_da 1 = Inr ex_A \<and> ex_lk_failing ex_A = Inr [ex_e1, ex_e2]
   \<and> ex_da 6 = Inr ex_B \<and> ex_lk_failing ex_B = Inl ErrStorageFailure
   \<and> Partition ex_lk_failing ex_da ex_vm (([1] @ 6 # [2]) @ 5 # [1]) = Inl ErrStorageFailure"
proof -
  have d: "ex_da 5 = Inl ()" by (simp add: ex_defs)
  have l: "\<forall>q\<in>set [1]. \<forall>a. ex_da q = Inr a \<longrightarrow> (\<exists>es. ex_lk a = Inr es)"
    by (simp add: ex_defs)
  have a1: "ex_da 1 = Inr ex_A" and a6: "ex_da 6 = Inr ex_B"
    by (simp_all add: ex_defs)
  have lA: "ex_lk_failing ex_A = Inr [ex_e1, ex_e2]"
    and lB: "ex_lk_failing ex_B = Inl ErrStorageFailure"
    by (simp_all add: ex_defs ex_lk_failing_def)
  have ok: "\<forall>r\<in>set [1]. \<exists>b es. ex_da r = Inr b \<and> ex_lk_failing b = Inr es"
    using a1 lA by simp
  have first: "Partition ex_lk ex_da ex_vm ([1] @ 5 # [2]) = Inl ErrInvalidStructure"
    using l partition_malformed_batch
                [where da = ex_da and p = 5 and x = "()" and lk = ex_lk and vm = ex_vm
                   and pre = "[1]" and post = "[2]", OF d]
    by blast
  have second: "Partition ex_lk_failing ex_da ex_vm (([1] @ 6 # [2]) @ 5 # [1])
                  = Inl ErrStorageFailure"
    using ok a6 lB partition_malformed_batch
                [where da = ex_da and p = 5 and x = "()" and lk = ex_lk_failing and vm = ex_vm
                   and pre = "[1] @ 6 # [2]" and post = "[1]" and ?pre1.0 = "[1]" and q = 6
                   and ?pre2.0 = "[2]" and a = ex_B and failure = ErrStorageFailure, OF d]
    by blast
  show ?thesis
    using d first a1 lA a6 lB second by blast
qed

end
